theory Spec2Isabelle
  imports Main "HOL-Library.Char_ord" "HOL-Library.List_Lexorder"
    "HOL-Library.Product_Lexorder" "HOL-Library.Option_ord" "HOL-Library.Sublist"
    "HOL-Library.Multiset"
begin

section \<open>Time stamps\<close>

text \<open>
  The store keeps every time stamp as TEXT. Two writers produce them:
  SQLite (\<open>CURRENT_TIMESTAMP\<close>, \<open>datetime('now')\<close>) renders
  \<open>YYYY-MM-DD HH:MM:SS\<close>, Python's \<open>datetime.isoformat()\<close> renders
  \<open>YYYY-MM-DDTHH:MM:SS\<close>. An instant is kept here at the resolution of one second
  (the microsecond suffix of \<open>isoformat\<close> is left out), and both writers read
  the same clock.
\<close>

record instant =
  year :: nat
  month :: nat
  day :: nat
  hour :: nat
  minute :: nat
  second :: nat

definition digit :: "nat \<Rightarrow> char" where
  "digit n = ''0123456789'' ! (n mod 10)"

definition pad2 :: "nat \<Rightarrow> string" where
  "pad2 n = [digit (n div 10), digit n]"

definition pad4 :: "nat \<Rightarrow> string" where
  "pad4 n = [digit (n div 1000), digit (n div 100), digit (n div 10), digit n]"

definition render :: "char \<Rightarrow> instant \<Rightarrow> string" where
  "render sep t = pad4 (year t) @ ''-'' @ pad2 (month t) @ ''-'' @ pad2 (day t) @ [sep]
     @ pad2 (hour t) @ '':'' @ pad2 (minute t) @ '':'' @ pad2 (second t)"

definition isoformat :: "instant \<Rightarrow> string" where
  "isoformat t = render CHR ''T'' t"

definition sql_datetime :: "instant \<Rightarrow> string" where
  "sql_datetime t = render CHR '' '' t"

definition instant_key :: "instant \<Rightarrow> nat \<times> nat \<times> nat \<times> nat \<times> nat \<times> nat" where
  "instant_key t = (year t, month t, day t, hour t, minute t, second t)"

definition earlier :: "instant \<Rightarrow> instant \<Rightarrow> bool" where
  "earlier a b = (instant_key a < instant_key b)"

section \<open>The store (db.py)\<close>

text \<open>
  A row of the downloads table and a row of the users table (without its key and its
  counters). \<open>speed_mbps\<close> is REAL in the table; no function modelled here computes with
  it, and it is kept as an integer.
\<close>

record download =
  download_id :: nat
  user_id :: int
  video_url :: string
  video_title :: "string option"
  file_path :: "string option"
  file_size_bytes :: "int option"
  format :: "string option"
  status :: string
  progress :: int
  speed_mbps :: "int option"
  eta_seconds :: "int option"
  created_at :: string
  completed_at :: "string option"
  error_message :: "string option"

record user =
  username :: "string option"
  first_name :: "string option"
  priority_until :: "string option"

text \<open>
  \<open>downloads\<close> holds the rows of the table in rowid order, \<open>seq\<close> is the
  AUTOINCREMENT counter of the table (the largest rowid handed out so far), and
  \<open>users\<close> is the users table, indexed by its primary key.
\<close>

record database =
  downloads :: "download list"
  seq :: nat
  users :: "int \<rightharpoonup> user"

definition init_db :: database where
  "init_db = \<lparr>downloads = [], seq = 0, users = Map.empty\<rparr>"

definition coalesce :: "'a option \<Rightarrow> 'a option \<Rightarrow> 'a option" where
  "coalesce a b = (case a of Some x \<Rightarrow> Some x | None \<Rightarrow> b)"

definition add_or_update_user :: "int \<Rightarrow> string option \<Rightarrow> string option \<Rightarrow> database \<Rightarrow> database" where
  "add_or_update_user uid uname fname d =
     (case users d uid of
        None \<Rightarrow> d\<lparr>users := (users d)(uid \<mapsto>
                   \<lparr>username = uname, first_name = fname, priority_until = None\<rparr>)\<rparr>
      | Some u \<Rightarrow> d\<lparr>users := (users d)(uid \<mapsto>
                   u\<lparr>username := coalesce uname (username u),
                     first_name := coalesce fname (first_name u)\<rparr>)\<rparr>)"

definition write_priority :: "int \<Rightarrow> string option \<Rightarrow> database \<Rightarrow> database" where
  "write_priority uid p d =
     (case users d uid of
        None \<Rightarrow> d
      | Some u \<Rightarrow> d\<lparr>users := (users d)(uid \<mapsto> u\<lparr>priority_until := p\<rparr>)\<rparr>)"

text \<open>
  \<open>set_priority(user_id, days)\<close>; \<open>expiry\<close> is the value of
  \<open>datetime.now() + timedelta(days=days)\<close>.
\<close>

definition set_priority :: "instant \<Rightarrow> int \<Rightarrow> int \<Rightarrow> database \<Rightarrow> database" where
  "set_priority expiry uid days d =
     write_priority uid (Some (if days < 0 then ''INFINITE'' else isoformat expiry)) d"

definition admin_remove_priority :: "int \<Rightarrow> database \<Rightarrow> database" where
  "admin_remove_priority uid d = write_priority uid None d"

definition add_download :: "instant \<Rightarrow> int \<Rightarrow> string \<Rightarrow> string option \<Rightarrow> string option
    \<Rightarrow> database \<Rightarrow> nat \<times> database" where
  "add_download now uid url title fmt d =
     (let i = Suc (seq d) in
      (i, d\<lparr>downloads := downloads d @
               [\<lparr>download_id = i, user_id = uid, video_url = url, video_title = title,
                 file_path = None, file_size_bytes = None, format = fmt,
                 status = ''pending'', progress = 0, speed_mbps = None, eta_seconds = None,
                 created_at = sql_datetime now, completed_at = None,
                 error_message = None\<rparr>],
             seq := i\<rparr>))"

definition get_download :: "nat \<Rightarrow> database \<Rightarrow> download option" where
  "get_download i d = find (\<lambda>r. download_id r = i) (downloads d)"

definition update_download_progress :: "nat \<Rightarrow> int \<Rightarrow> int option \<Rightarrow> int option
    \<Rightarrow> database \<Rightarrow> database" where
  "update_download_progress i pct speed eta d =
     d\<lparr>downloads := map (\<lambda>r. if download_id r = i
                               then r\<lparr>progress := pct, speed_mbps := speed, eta_seconds := eta\<rparr>
                               else r) (downloads d)\<rparr>"

text \<open>
  \<open>update_download_status(download_id, status, file_path=None, file_size_bytes=None,
  error_message=None)\<close>: one UPDATE whose only condition is the row id.
\<close>

definition update_download_status :: "instant \<Rightarrow> nat \<Rightarrow> string \<Rightarrow> string option
    \<Rightarrow> int option \<Rightarrow> string option \<Rightarrow> database \<Rightarrow> database" where
  "update_download_status now i s fp fsz err d =
     (let completed = (if s = ''completed'' then Some (isoformat now) else None) in
      d\<lparr>downloads := map (\<lambda>r. if download_id r = i
                                then r\<lparr>status := s, file_path := fp, file_size_bytes := fsz,
                                       error_message := err, completed_at := completed\<rparr>
                                else r) (downloads d)\<rparr>)"

definition is_active :: "download \<Rightarrow> bool" where
  "is_active r = (status r \<in> {''downloading'', ''converting'', ''sending''})"

definition count_active_downloads :: "database \<Rightarrow> nat" where
  "count_active_downloads d = length (filter is_active (downloads d))"

text \<open>
  The ORDER BY key of \<open>get_all_pending_downloads\<close>: the CASE expression, then
  \<open>created_at\<close>. The comparison with \<open>datetime('now')\<close> is a comparison of TEXT
  values, byte by byte. Rows with equal keys stay in rowid order (the sort is stable).
\<close>

definition priority_case :: "instant \<Rightarrow> string option \<Rightarrow> nat" where
  "priority_case now p =
     (if p = Some ''INFINITE'' \<or> (case p of None \<Rightarrow> False | Some s \<Rightarrow> sql_datetime now < s)
      then 0 else 1)"

definition pending_key :: "instant \<Rightarrow> database \<Rightarrow> download \<Rightarrow> nat \<times> string" where
  "pending_key now d r =
     (priority_case now (case users d (user_id r) of None \<Rightarrow> None | Some u \<Rightarrow> priority_until u),
      created_at r)"

definition get_all_pending_downloads :: "instant \<Rightarrow> database \<Rightarrow> download list" where
  "get_all_pending_downloads now d =
     sort_key (pending_key now d)
       (filter (\<lambda>r. users d (user_id r) \<noteq> None \<and> status r = ''pending'') (downloads d))"

text \<open>
  \<open>ORDER BY completed_at DESC LIMIT 1\<close>: a row with the greatest
  \<open>completed_at\<close> (NULL is the least value); among equal ones the first in rowid order.
\<close>

fun newest :: "download list \<Rightarrow> download option" where
  "newest [] = None"
| "newest (r # rs) =
     (case newest rs of
        None \<Rightarrow> Some r
      | Some e \<Rightarrow> if completed_at e \<le> completed_at r then Some r else Some e)"

definition get_completed_download_by_url_format :: "string \<Rightarrow> string \<Rightarrow> database
    \<Rightarrow> download option" where
  "get_completed_download_by_url_format url fmt d =
     newest (filter (\<lambda>r. video_url r = url \<and> format r = Some fmt \<and> status r = ''completed''
                          \<and> file_path r \<noteq> None) (downloads d))"

section \<open>The fetch capability (utils.py)\<close>

definition lower_char :: "char \<Rightarrow> char" where
  "lower_char c =
     (case map_of (zip ''ABCDEFGHIJKLMNOPQRSTUVWXYZ'' ''abcdefghijklmnopqrstuvwxyz'') c of
        Some l \<Rightarrow> l
      | None \<Rightarrow> c)"

definition lower :: "string \<Rightarrow> string" where
  "lower s = map lower_char s"

text \<open>\<open>str_in sub s\<close> is Python's \<open>sub in s\<close> on strings.\<close>

fun str_in :: "string \<Rightarrow> string \<Rightarrow> bool" where
  "str_in sub [] = (sub = [])"
| "str_in sub (c # cs) = (prefix sub (c # cs) \<or> str_in sub cs)"

definition basename :: "string \<Rightarrow> string" where
  "basename p = rev (takeWhile (\<lambda>c. c \<noteq> CHR ''/'') (rev p))"

text \<open>\<open>Path(p).suffix\<close>: the last dot of the name and what follows it, unless that dot
  opens or closes the name.\<close>

definition suffix_of :: "string \<Rightarrow> string" where
  "suffix_of p =
     (let name = basename p; ext = rev (takeWhile (\<lambda>c. c \<noteq> CHR ''.'') (rev name)) in
      if CHR ''.'' \<in> set name \<and> ext \<noteq> [] \<and> Suc (length ext) < length name
      then CHR ''.'' # ext else [])"

datatype pyval = PStr string | PInt int

type_synonym metadata = "(string \<times> pyval) list"

text \<open>
  What the download engine did inside \<open>download_video\<close>: it left a media file of some
  size in the output directory, it finished without leaving one, it raised
  \<open>DownloadError\<close>, or it raised another exception.
\<close>

datatype engine_outcome =
    Downloaded string int
  | NoFileFound
  | DownloadError string
  | OtherException string

definition download_video :: "engine_outcome \<Rightarrow> bool \<times> string option \<times> metadata" where
  "download_video e =
     (case e of
        Downloaded p sz \<Rightarrow>
          (True, Some p, [(''file_size'', PInt sz), (''filename'', PStr (basename p))])
      | NoFileFound \<Rightarrow> (False, None, [])
      | DownloadError msg \<Rightarrow>
          (if str_in ''geo'' (lower msg) \<or> str_in ''blocked'' (lower msg)
           then (False, None, [(''error'', PStr ''video_geo_blocked'')])
           else if str_in ''private'' (lower msg)
           then (False, None, [(''error'', PStr ''video_private'')])
           else if str_in ''unavailable'' (lower msg)
           then (False, None, [(''error'', PStr ''video_unavailable'')])
           else (False, None, [(''error'', PStr msg)]))
      | OtherException msg \<Rightarrow> (False, None, [(''error'', PStr msg)]))"

section \<open>The executor and the scheduler (queue_worker.py)\<close>

datatype exn = TimeoutExpired | Exception string

datatype 'a call = Returned 'a | Raised exn

text \<open>
  The call of the fetch capability as \<open>_process_download\<close> sees it: \<open>download_video\<close>
  returns, or an exception leaves the call.
\<close>

datatype fetch = Engine engine_outcome | FetchRaised exn

definition fetch_call :: "fetch \<Rightarrow> (bool \<times> string option \<times> metadata) call" where
  "fetch_call f = (case f of Engine e \<Rightarrow> Returned (download_video e) | FetchRaised x \<Rightarrow> Raised x)"

definition fetch_disk :: "fetch \<Rightarrow> (string \<rightharpoonup> int) \<Rightarrow> (string \<rightharpoonup> int)" where
  "fetch_disk f dk = (case f of Engine (Downloaded p sz) \<Rightarrow> dk(p \<mapsto> sz) | _ \<Rightarrow> dk)"

text \<open>The two \<open>except\<close> clauses of \<open>_process_download\<close>.\<close>

definition on_exception :: "instant \<Rightarrow> nat \<Rightarrow> exn \<Rightarrow> database \<Rightarrow> database" where
  "on_exception now i x d =
     (case x of
        TimeoutExpired \<Rightarrow> update_download_status now i ''failed'' None None (Some ''Download timeout'') d
      | Exception msg \<Rightarrow> update_download_status now i ''failed'' None None (Some msg) d)"

text \<open>\<open>metadata.get("error", "Download failed")\<close>; \<open>download_video\<close> stores only text
  under that key.\<close>

definition metadata_error :: "metadata \<Rightarrow> string" where
  "metadata_error m = (case map_of m ''error'' of Some (PStr e) \<Rightarrow> e | _ \<Rightarrow> ''Download failed'')"

text \<open>\<open>Path(file_path).stat().st_size if file_path else 0\<close>; the disk maps the path of
  every file to its size.\<close>

definition stat_size :: "(string \<rightharpoonup> int) \<Rightarrow> string option \<Rightarrow> int call" where
  "stat_size dk fp =
     (case fp of
        None \<Rightarrow> Returned 0
      | Some p \<Rightarrow>
          if p = [] then Returned 0
          else (case dk p of
                  None \<Rightarrow> Raised (Exception (''[Errno 2] No such file or directory: '' @ p))
                | Some sz \<Rightarrow> Returned sz))"

text \<open>
  \<open>_process_download\<close> up to the call of the fetch capability (the user directory and the
  write of \<open>downloading\<close>); the flag tells whether the call is reached.
\<close>

definition process_download_begin :: "instant \<Rightarrow> unit call \<Rightarrow> download \<Rightarrow> database
    \<Rightarrow> database \<times> bool" where
  "process_download_begin now mkdir r d =
     (case mkdir of
        Raised x \<Rightarrow> (on_exception now (download_id r) x d, False)
      | Returned _ \<Rightarrow>
          (update_download_status now (download_id r) ''downloading'' None None None d, True))"

text \<open>\<open>_process_download\<close> from the return of the fetch capability on.\<close>

definition process_download_finish :: "instant \<Rightarrow> fetch \<Rightarrow> download \<Rightarrow> (string \<rightharpoonup> int)
    \<Rightarrow> database \<Rightarrow> database" where
  "process_download_finish now f r dk d =
     (case fetch_call f of
        Raised x \<Rightarrow> on_exception now (download_id r) x d
      | Returned (success, fp, meta) \<Rightarrow>
          if \<not> success then
            update_download_status now (download_id r) ''failed'' None None
              (Some (metadata_error meta)) d
          else
            (case stat_size dk fp of
               Raised x \<Rightarrow> on_exception now (download_id r) x d
             | Returned sz \<Rightarrow>
                 update_download_status now (download_id r) ''completed'' fp (Some sz) None d))"

text \<open>
  The state the threads share: the store, the files on disk (path to size) and the bot's
  \<open>progress_messages\<close> dictionary. \<open>inflight\<close> is the position of the scheduler thread:
  the row it holds while \<open>_process_download\<close> waits for the fetch capability.
  \<open>observers\<close> are the jobs whose \<open>_update_progress_loop\<close> thread is alive.
\<close>

record system =
  db :: database
  disk :: "string \<rightharpoonup> int"
  progress_messages :: "nat \<rightharpoonup> int \<times> int"
  observers :: "nat list"
  inflight :: "download option"

definition init :: system where
  "init = \<lparr>db = init_db, disk = Map.empty, progress_messages = Map.empty,
            observers = [], inflight = None\<rparr>"

text \<open>\<open>_process_download\<close> as one call, from entry to return.\<close>

definition process_download :: "instant \<Rightarrow> instant \<Rightarrow> unit call \<Rightarrow> fetch \<Rightarrow> download
    \<Rightarrow> system \<Rightarrow> system" where
  "process_download now fin mkdir f r s =
     (case process_download_begin now mkdir r (db s) of
        (d1, False) \<Rightarrow> s\<lparr>db := d1\<rparr>
      | (d1, True) \<Rightarrow>
          (let dk = fetch_disk f (disk s) in
           s\<lparr>db := process_download_finish fin f r dk d1, disk := dk\<rparr>))"

text \<open>
  One pass of the body of \<open>_run_loop\<close>; \<open>cap\<close> is \<open>MAX_CONCURRENT_DOWNLOADS\<close>.
  \<open>select_pending\<close> is the row the pass hands to \<open>_process_download\<close>, if any.
\<close>

definition select_pending :: "int \<Rightarrow> instant \<Rightarrow> database \<Rightarrow> download option" where
  "select_pending cap now d =
     (if int (count_active_downloads d) < cap
      then (case get_all_pending_downloads now d of [] \<Rightarrow> None | r # _ \<Rightarrow> Some r)
      else None)"

definition run_loop_pass :: "int \<Rightarrow> instant \<Rightarrow> instant \<Rightarrow> unit call \<Rightarrow> fetch
    \<Rightarrow> system \<Rightarrow> system" where
  "run_loop_pass cap now fin mkdir f s =
     (case select_pending cap now (db s) of
        None \<Rightarrow> s
      | Some r \<Rightarrow> process_download now fin mkdir f r s)"

section \<open>Submission and delivery (bot.py)\<close>

datatype submission = FromCache download | Queued nat

text \<open>
  \<open>handle_download_callback\<close> from the cache check on: \<open>uid\<close>, \<open>url\<close> and \<open>fmt\<close> are
  the user, the link and the chosen quality, \<open>msg\<close> the chat and message ids of the
  progress message.
\<close>

definition cache_hit :: "string \<Rightarrow> string \<Rightarrow> system \<Rightarrow> download option" where
  "cache_hit url fmt s =
     (case get_completed_download_by_url_format url fmt (db s) of
        None \<Rightarrow> None
      | Some c \<Rightarrow>
          (case file_path c of
             None \<Rightarrow> None
           | Some p \<Rightarrow> if p \<noteq> [] \<and> disk s p \<noteq> None then Some c else None))"

definition handle_download_callback :: "instant \<Rightarrow> int \<Rightarrow> string \<Rightarrow> string \<Rightarrow> int \<times> int
    \<Rightarrow> system \<Rightarrow> submission \<times> system" where
  "handle_download_callback now uid url fmt msg s =
     (case cache_hit url fmt s of
        Some c \<Rightarrow> (FromCache c, s)
      | None \<Rightarrow>
          (case add_download now uid url None (Some fmt) (db s) of
             (i, d1) \<Rightarrow>
               (Queued i, s\<lparr>db := d1, progress_messages := (progress_messages s)(i \<mapsto> msg),
                             observers := observers s @ [i]\<rparr>)))"

text \<open>What \<open>_send_completed_download\<close> hands to the notifier.\<close>

datatype delivery =
    LinkMessage string
  | InlineAudio string
  | InlineVideo string
  | InlineDocument string
  | EmptyFileNotice
  | SendErrorNotice

definition inline_kind :: "string \<Rightarrow> delivery" where
  "inline_kind p =
     (let ext = lower (suffix_of p) in
      if ext = ''.mp3'' then InlineAudio p
      else if ext \<in> set [''.mp4'', ''.webm'', ''.mkv'', ''.avi'', ''.mov''] then InlineVideo p
      else InlineDocument p)"

text \<open>
  \<open>_send_completed_download(user_id, download)\<close>; \<open>max_mb\<close> is \<open>MAX_FILE_SIZE_MB\<close>,
  \<open>sent\<close> tells whether the notifier calls of the inline branch (edit, open, send) all
  returned. Removing an existing file from the disk always succeeds here.
\<close>

definition send_completed_download :: "int \<Rightarrow> instant \<Rightarrow> bool \<Rightarrow> download \<Rightarrow> system
    \<Rightarrow> system \<times> delivery list" where
  "send_completed_download max_mb now sent r s =
     (case file_path r of
        None \<Rightarrow> (s, [])
      | Some p \<Rightarrow>
          if p = [] \<or> disk s p = None then (s, [])
          else if file_size_bytes r = Some 0 then
            (s, if progress_messages s (download_id r) \<noteq> None then [EmptyFileNotice] else [])
          else
            (let s1 = s\<lparr>db := update_download_status now (download_id r) ''sending''
                                 None None None (db s)\<rparr> in
             case progress_messages s (download_id r) of
               None \<Rightarrow> (s1, [])
             | Some m \<Rightarrow>
                 (case file_size_bytes r of
                    None \<Rightarrow> (s1, [])
                  | Some sz \<Rightarrow>
                      if sz > max_mb * 1024 * 1024 then (s1, [LinkMessage (basename p)])
                      else if sent then (s1\<lparr>disk := (disk s1)(p := None)\<rparr>, [inline_kind p])
                      else (s1, [SendErrorNotice]))))"

text \<open>
  The end of \<open>_update_progress_loop\<close>: the observer of job \<open>i\<close> has seen a terminal
  status (or no row), reads the row again and delivers a completed job.
\<close>

definition observer_finish :: "int \<Rightarrow> instant \<Rightarrow> bool \<Rightarrow> nat \<Rightarrow> system \<Rightarrow> system" where
  "observer_finish max_mb now sent i s =
     (if i \<in> set (observers s) then
        (case get_download i (db s) of
           None \<Rightarrow> s\<lparr>observers := removeAll i (observers s)\<rparr>
         | Some r \<Rightarrow>
             if status r = ''completed'' then
               fst (send_completed_download max_mb now sent r
                      (s\<lparr>observers := removeAll i (observers s)\<rparr>))
             else if status r = ''failed'' then s\<lparr>observers := removeAll i (observers s)\<rparr>
             else s)
      else s)"

definition cleanup_caches :: "system \<Rightarrow> system" where
  "cleanup_caches s =
     (if count_active_downloads (db s) = 0 then s\<lparr>progress_messages := Map.empty\<rparr> else s)"

section \<open>The threads together\<close>

text \<open>
  Each event is one step of one thread between two accesses to the store: a handler
  registers a user or submits a link, the operator grants or removes priority, the
  scheduler starts a pass (\<open>Pass\<close>), its progress callback writes (\<open>Relay\<close>), the fetch
  capability returns to it (\<open>Fetched\<close>), an observer ends (\<open>Observe\<close>), the cache cleaner
  runs, a file is removed from the disk. An event that its thread cannot take in a state
  leaves the state as it is.
\<close>

datatype event =
    Register int
  | GivePriority instant int int
  | RemovePriority int
  | Submit instant int string string
  | Pass instant "unit call"
  | Relay int "int option" "int option"
  | Fetched instant fetch
  | Observe instant nat bool
  | Cleanup
  | RemoveFile string

record config =
  max_concurrent_downloads :: int
  max_file_size_mb :: int

fun step :: "config \<Rightarrow> event \<Rightarrow> system \<Rightarrow> system" where
  "step c (Register uid) s = s\<lparr>db := add_or_update_user uid None None (db s)\<rparr>"
| "step c (GivePriority expiry uid days) s =
     s\<lparr>db := set_priority expiry uid days (add_or_update_user uid None None (db s))\<rparr>"
| "step c (RemovePriority uid) s = s\<lparr>db := admin_remove_priority uid (db s)\<rparr>"
| "step c (Submit now uid url fmt) s = snd (handle_download_callback now uid url fmt (0, 0) s)"
| "step c (Pass now mkdir) s =
     (case inflight s of
        Some r \<Rightarrow> s
      | None \<Rightarrow>
          (case select_pending (max_concurrent_downloads c) now (db s) of
             None \<Rightarrow> s
           | Some r \<Rightarrow>
               (case process_download_begin now mkdir r (db s) of
                  (d1, waiting) \<Rightarrow> s\<lparr>db := d1, inflight := (if waiting then Some r else None)\<rparr>)))"
| "step c (Relay pct speed eta) s =
     (case inflight s of
        None \<Rightarrow> s
      | Some r \<Rightarrow> s\<lparr>db := update_download_progress (download_id r) pct speed eta (db s)\<rparr>)"
| "step c (Fetched now f) s =
     (case inflight s of
        None \<Rightarrow> s
      | Some r \<Rightarrow>
          (let dk = fetch_disk f (disk s) in
           s\<lparr>db := process_download_finish now f r dk (db s), disk := dk, inflight := None\<rparr>))"
| "step c (Observe now i sent) s = observer_finish (max_file_size_mb c) now sent i s"
| "step c Cleanup s = cleanup_caches s"
| "step c (RemoveFile p) s = s\<lparr>disk := (disk s)(p := None)\<rparr>"

fun run :: "config \<Rightarrow> event list \<Rightarrow> system \<Rightarrow> system" where
  "run c [] s = s"
| "run c (e # es) s = run c es (step c e s)"

section \<open>Reading priority and errors back\<close>

text \<open>
  \<open>datetime.fromisoformat\<close> on the text that \<open>isoformat\<close> writes (one separator
  character between date and time); \<open>None\<close> stands for \<open>ValueError\<close>. The day is checked
  against 31 for every month.
\<close>

fun number :: "string \<Rightarrow> nat option" where
  "number [] = None"
| "number cs =
     (if list_all (\<lambda>c. c \<in> set ''0123456789'') cs
      then Some (foldl (\<lambda>n c. 10 * n + length (takeWhile (\<lambda>x. x \<noteq> c) ''0123456789'')) 0 cs)
      else None)"

definition fromisoformat :: "string \<Rightarrow> instant option" where
  "fromisoformat s =
     (if length s = 19 \<and> s ! 4 = CHR ''-'' \<and> s ! 7 = CHR ''-'' \<and> s ! 13 = CHR '':''
         \<and> s ! 16 = CHR '':''
      then (case (number (take 4 s), number (take 2 (drop 5 s)), number (take 2 (drop 8 s)),
                  number (take 2 (drop 11 s)), number (take 2 (drop 14 s)),
                  number (take 2 (drop 17 s))) of
              (Some y, Some mo, Some d, Some h, Some mi, Some sec) \<Rightarrow>
                if 1 \<le> y \<and> 1 \<le> mo \<and> mo \<le> 12 \<and> 1 \<le> d \<and> d \<le> 31 \<and> h < 24 \<and> mi < 60 \<and> sec < 60
                then Some \<lparr>year = y, month = mo, day = d, hour = h, minute = mi, second = sec\<rparr>
                else None
            | _ \<Rightarrow> None)
      else None)"

definition has_priority :: "instant \<Rightarrow> int \<Rightarrow> database \<Rightarrow> bool" where
  "has_priority now uid d =
     (case users d uid of
        None \<Rightarrow> False
      | Some u \<Rightarrow>
          (case priority_until u of
             None \<Rightarrow> False
           | Some p \<Rightarrow>
               if p = [] then False
               else if p = ''INFINITE'' then True
               else (case fromisoformat p of None \<Rightarrow> False | Some t \<Rightarrow> earlier now t)))"



section \<open>Invariants of the reachable states\<close>

text \<open>\<open>str(e)\<close> as the \<open>except\<close> clauses store it.\<close>

definition exn_text :: "exn \<Rightarrow> string" where
  "exn_text x = (case x of TimeoutExpired \<Rightarrow> ''Download timeout'' | Exception msg \<Rightarrow> msg)"

definition fetching :: "download \<Rightarrow> bool" where
  "fetching r = (status r = ''downloading'' \<or> status r = ''converting'')"

text \<open>
  Row ids are distinct and bounded by the AUTOINCREMENT counter; the row the scheduler
  holds is in \<open>downloading\<close>, it is the only row in \<open>downloading\<close> or \<open>converting\<close>, and
  it is held only under a positive cap.
\<close>

definition ids_ok :: "database \<Rightarrow> bool" where
  "ids_ok d =
     (distinct (map download_id (downloads d))
      \<and> list_all (\<lambda>i. i \<le> seq d) (map download_id (downloads d)))"

definition fetch_ok :: "config \<Rightarrow> system \<Rightarrow> bool" where
  "fetch_ok c s =
     (case inflight s of
        None \<Rightarrow> list_all (\<lambda>r. \<not> fetching r) (downloads (db s))
      | Some r0 \<Rightarrow>
          0 < max_concurrent_downloads c
          \<and> map_option status (get_download (download_id r0) (db s)) = Some ''downloading''
          \<and> list_all (\<lambda>r. fetching r \<longrightarrow> download_id r = download_id r0)
               (downloads (db s)))"

definition consistent :: "config \<Rightarrow> system \<Rightarrow> bool" where
  "consistent c s = (ids_ok (db s) \<and> fetch_ok c s)"

text \<open>The status changes a single write of the program makes.\<close>

definition moves :: "(string \<times> string) list" where
  "moves = [(''pending'', ''downloading''), (''pending'', ''failed''),
            (''downloading'', ''completed''), (''downloading'', ''failed''),
            (''completed'', ''sending'')]"

section \<open>Concrete runs\<close>

definition midnight :: instant where
  "midnight = \<lparr>year = 2026, month = 11, day = 3, hour = 0, minute = 0, second = 0\<rparr>"

definition at_1000 :: instant where
  "at_1000 = \<lparr>year = 2026, month = 11, day = 3, hour = 10, minute = 0, second = 0\<rparr>"

definition at_1030 :: instant where
  "at_1030 = \<lparr>year = 2026, month = 11, day = 3, hour = 10, minute = 30, second = 0\<rparr>"

definition at_1100 :: instant where
  "at_1100 = \<lparr>year = 2026, month = 11, day = 3, hour = 11, minute = 0, second = 0\<rparr>"

definition noon :: instant where
  "noon = \<lparr>year = 2026, month = 11, day = 3, hour = 12, minute = 0, second = 0\<rparr>"

definition in_5_days :: instant where
  "in_5_days = \<lparr>year = 2026, month = 11, day = 8, hour = 9, minute = 0, second = 0\<rparr>"

definition cfg1 :: config where
  "cfg1 = \<lparr>max_concurrent_downloads = 1, max_file_size_mb = 50\<rparr>"

text \<open>User 7 submits a link; the scheduler admits the job; the fetch leaves a file of 100
  bytes.\<close>

definition run_completed :: "event list" where
  "run_completed =
     [Register 7, Submit at_1000 7 ''L'' ''720p'', Pass at_1000 (Returned ()),
      Fetched at_1030 (Engine (Downloaded ''/storage/7/a.mp4'' 100))]"

text \<open>The same, and the observer of job 1 delivers the file.\<close>

definition run_delivered :: "event list" where
  "run_delivered = run_completed @ [Observe at_1030 1 True]"


text \<open>The fetch leaves a file of 60000000 bytes, above 50 MB.\<close>

definition run_large :: "event list" where
  "run_large =
     [Register 7, Submit at_1000 7 ''L'' ''720p'', Pass at_1000 (Returned ()),
      Fetched at_1030 (Engine (Downloaded ''/storage/7/a.mp4'' 60000000))]"


text \<open>The scheduler has admitted job 1 and waits for the fetch capability.\<close>

definition run_admitted :: "event list" where
  "run_admitted = [Register 7, Submit at_1000 7 ''L'' ''720p'', Pass at_1000 (Returned ())]"

text \<open>User 1 holds priority for five more days, user 2 without bound; user 1 submits
  first.\<close>

definition run_two_tiers :: "event list" where
  "run_two_tiers =
     [GivePriority in_5_days 1 5, GivePriority in_5_days 2 (- 1),
      Submit at_1000 1 ''A'' ''720p'', Submit at_1030 2 ''B'' ''720p'']"

text \<open>Users without priority, with unbounded priority and with five days left submit in
  that order.\<close>

definition run_three_users :: "event list" where
  "run_three_users =
     [Register 1, GivePriority in_5_days 2 (- 1), GivePriority in_5_days 3 5,
      Submit at_1000 1 ''A'' ''720p'', Submit at_1030 2 ''B'' ''720p'',
      Submit at_1100 3 ''C'' ''720p'']"

text \<open>The priority of user 1 ran out at midnight; user 2 never had any and submits
  first.\<close>

definition run_expired :: "event list" where
  "run_expired =
     [GivePriority midnight 1 1, Register 2,
      Submit at_1000 2 ''A'' ''720p'', Submit at_1030 1 ''B'' ''720p'']"



text \<open>After delivery: a later pass and fetch of a second job.\<close>

definition run_later :: "event list" where
  "run_later =
     [Submit at_1100 7 ''M'' ''720p'', Pass at_1100 (Returned ()),
      Fetched noon (Engine (DownloadError ''ERROR: Private video'')), Cleanup]"

text \<open>Job 1 is submitted and waits; later passes of the scheduler.\<close>

definition run_submitted :: "event list" where
  "run_submitted = [Register 7, Submit at_1000 7 ''L'' ''720p'']"

definition run_passes :: "event list" where
  "run_passes = [Pass at_1030 (Returned ()), Pass at_1100 (Returned ())]"

text \<open>Job 1 is fetched as a large file and its observer delivers it.\<close>

definition run_large_delivered :: "event list" where
  "run_large_delivered = run_large @ [Observe at_1030 1 True]"


section \<open>Facts about the store operations\<close>

lemma find_map_id:
  assumes "\<And>r. download_id (g r) = download_id r"
  shows "find (\<lambda>r. download_id r = j) (map (\<lambda>r. if download_id r = i then g r else r) rs) =
     (if j = i then map_option g (find (\<lambda>r. download_id r = i) rs)
      else find (\<lambda>r. download_id r = j) rs)"
  using assms by (induction rs) auto

lemma get_download_update_status:
  "get_download j (update_download_status now i s fp fsz err d) =
     (if j = i
      then map_option (\<lambda>r. r\<lparr>status := s, file_path := fp, file_size_bytes := fsz,
             error_message := err,
             completed_at := (if s = ''completed'' then Some (isoformat now) else None)\<rparr>)
             (get_download i d)
      else get_download j d)"
  unfolding get_download_def update_download_status_def Let_def
  by (simp add: find_map_id)

lemma get_download_update_progress:
  "get_download j (update_download_progress i pct sp eta d) =
     (if j = i
      then map_option (\<lambda>r. r\<lparr>progress := pct, speed_mbps := sp, eta_seconds := eta\<rparr>)
             (get_download i d)
      else get_download j d)"
  unfolding get_download_def update_download_progress_def
  by (simp add: find_map_id)

lemma ids_update_status [simp]:
  "map download_id (downloads (update_download_status now i s fp fsz err d)) =
     map download_id (downloads d)"
  by (simp add: update_download_status_def Let_def comp_def if_distrib cong: if_cong)

lemma seq_update_status [simp]:
  "seq (update_download_status now i s fp fsz err d) = seq d"
  by (simp add: update_download_status_def Let_def)

lemma users_update_status [simp]:
  "users (update_download_status now i s fp fsz err d) = users d"
  by (simp add: update_download_status_def Let_def)

lemma ids_update_progress [simp]:
  "map download_id (downloads (update_download_progress i pct sp eta d)) =
     map download_id (downloads d)"
  by (simp add: update_download_progress_def comp_def if_distrib cong: if_cong)

lemma seq_update_progress [simp]:
  "seq (update_download_progress i pct sp eta d) = seq d"
  by (simp add: update_download_progress_def)

lemma downloads_add_or_update_user [simp]:
  "downloads (add_or_update_user uid a b d) = downloads d"
  by (simp add: add_or_update_user_def split: option.splits)

lemma seq_add_or_update_user [simp]:
  "seq (add_or_update_user uid a b d) = seq d"
  by (simp add: add_or_update_user_def split: option.splits)

lemma downloads_write_priority [simp]:
  "downloads (write_priority uid p d) = downloads d"
  by (simp add: write_priority_def split: option.splits)

lemma seq_write_priority [simp]:
  "seq (write_priority uid p d) = seq d"
  by (simp add: write_priority_def split: option.splits)

lemma get_download_user_ops [simp]:
  "get_download i (add_or_update_user uid a b d) = get_download i d"
  "get_download i (write_priority uid p d) = get_download i d"
  by (simp_all add: get_download_def)

lemma get_download_member:
  "get_download i d = Some r \<Longrightarrow> r \<in> set (downloads d) \<and> download_id r = i"
  unfolding get_download_def by (auto simp: find_Some_iff)

lemma find_distinct_member:
  "distinct (map download_id rs) \<Longrightarrow> r \<in> set rs \<Longrightarrow>
     find (\<lambda>x. download_id x = download_id r) rs = Some r"
  by (induction rs) auto

lemma get_download_distinct:
  "distinct (map download_id (downloads d)) \<Longrightarrow> r \<in> set (downloads d) \<Longrightarrow>
     get_download (download_id r) d = Some r"
  unfolding get_download_def by (rule find_distinct_member)

lemma find_append_old:
  "find P xs = Some r \<Longrightarrow> find P (xs @ ys) = Some r"
  by (induction xs) auto

lemma get_download_add_old:
  "get_download i d = Some r \<Longrightarrow>
     get_download i (snd (add_download now uid url t f d)) = Some r"
  by (simp add: get_download_def add_download_def Let_def find_append_old)

lemma select_pending_member:
  "select_pending cap now d = Some r \<Longrightarrow>
     r \<in> set (downloads d) \<and> status r = ''pending''
     \<and> int (count_active_downloads d) < cap"
proof -
  assume a: "select_pending cap now d = Some r"
  then have lt: "int (count_active_downloads d) < cap"
    by (simp add: select_pending_def split: if_splits)
  from a lt obtain rest where "get_all_pending_downloads now d = r # rest"
    by (auto simp: select_pending_def split: list.splits)
  then have "r \<in> set (get_all_pending_downloads now d)" by simp
  then have "r \<in> set (downloads d) \<and> status r = ''pending''"
    by (simp add: get_all_pending_downloads_def)
  with lt show ?thesis by simp
qed

lemma on_exception_eq:
  "on_exception now i x d =
     update_download_status now i ''failed'' None None (Some (exn_text x)) d"
  by (cases x) (simp_all add: on_exception_def exn_text_def)

lemma process_download_begin_cases:
  "process_download_begin now mk r d =
     (update_download_status now (download_id r) ''downloading'' None None None d, True)
   \<or> (\<exists>e. process_download_begin now mk r d =
          (update_download_status now (download_id r) ''failed'' None None (Some e) d, False))"
  by (cases mk) (auto simp: process_download_begin_def on_exception_eq)

lemma process_download_finish_cases:
  "(\<exists>fp sz. process_download_finish now f r dk d =
       update_download_status now (download_id r) ''completed'' fp (Some sz) None d)
   \<or> (\<exists>e. process_download_finish now f r dk d =
          update_download_status now (download_id r) ''failed'' None None (Some e) d)"
  unfolding process_download_finish_def
  by (auto simp: on_exception_eq split: call.splits prod.splits)
section \<open>The invariant holds in every reachable state\<close>

lemma in_set_map_iff: "y \<in> set (map f xs) \<longleftrightarrow> (\<exists>r\<in>set xs. y = f r)"
  by (induction xs) auto

lemma downloads_update_status:
  "downloads (update_download_status now i s fp fsz err d) =
     map (\<lambda>r. if download_id r = i
             then r\<lparr>status := s, file_path := fp, file_size_bytes := fsz, error_message := err,
                    completed_at := (if s = ''completed'' then Some (isoformat now) else None)\<rparr>
             else r) (downloads d)"
  by (simp add: update_download_status_def Let_def)

lemma downloads_update_progress:
  "downloads (update_download_progress i pct sp eta d) =
     map (\<lambda>r. if download_id r = i
             then r\<lparr>progress := pct, speed_mbps := sp, eta_seconds := eta\<rparr>
             else r) (downloads d)"
  by (simp add: update_download_progress_def)

lemma row_after_status:
  assumes "y \<in> set (downloads (update_download_status now i st fp sz err d))"
  shows "\<exists>r\<in>set (downloads d). download_id y = download_id r
           \<and> status y = (if download_id r = i then st else status r)"
proof -
  from assms obtain r where r: "r \<in> set (downloads d)"
    and y: "y = (if download_id r = i
             then r\<lparr>status := st, file_path := fp, file_size_bytes := sz, error_message := err,
                    completed_at := (if st = ''completed'' then Some (isoformat now) else None)\<rparr>
             else r)"
    unfolding downloads_update_status in_set_map_iff by blast
  from y have "download_id y = download_id r \<and> status y = (if download_id r = i then st else status r)"
    by (cases "download_id r = i") simp_all
  with r show ?thesis by blast
qed

lemma row_after_progress:
  assumes "y \<in> set (downloads (update_download_progress i pct sp eta d))"
  shows "\<exists>r\<in>set (downloads d). download_id y = download_id r \<and> status y = status r"
proof -
  from assms obtain r where r: "r \<in> set (downloads d)"
    and y: "y = (if download_id r = i
             then r\<lparr>progress := pct, speed_mbps := sp, eta_seconds := eta\<rparr>
             else r)"
    unfolding downloads_update_progress in_set_map_iff by blast
  from y have "download_id y = download_id r \<and> status y = status r"
    by (cases "download_id r = i") simp_all
  with r show ?thesis by blast
qed

lemma fetching_after_status:
  assumes "y \<in> set (downloads (update_download_status now i st fp sz err d))" "fetching y"
  shows "(download_id y = i \<and> (st = ''downloading'' \<or> st = ''converting''))
         \<or> (\<exists>r\<in>set (downloads d). fetching r \<and> download_id r = download_id y \<and> download_id r \<noteq> i)"
proof -
  from row_after_status [OF assms(1)] obtain r where r: "r \<in> set (downloads d)"
    and i: "download_id y = download_id r"
    and s: "status y = (if download_id r = i then st else status r)" by blast
  show ?thesis
  proof (cases "download_id r = i")
    case True
    with s i assms(2) show ?thesis by (simp add: fetching_def)
  next
    case False
    with s assms(2) have "fetching r" by (simp add: fetching_def)
    with r i False show ?thesis by metis
  qed
qed

lemma fetching_after_progress:
  assumes "y \<in> set (downloads (update_download_progress i pct sp eta d))" "fetching y"
  shows "\<exists>r\<in>set (downloads d). fetching r \<and> download_id r = download_id y"
proof -
  from row_after_progress [OF assms(1)] obtain r where "r \<in> set (downloads d)"
    "download_id y = download_id r" "status y = status r" by blast
  with assms(2) show ?thesis by (auto simp: fetching_def)
qed

lemma ids_ok_update_status [simp]:
  "ids_ok (update_download_status now i st fp sz err d) = ids_ok d"
  by (simp add: ids_ok_def)

lemma ids_ok_update_progress [simp]:
  "ids_ok (update_download_progress i pct sp eta d) = ids_ok d"
  by (simp add: ids_ok_def)

lemma ids_ok_user_ops [simp]:
  "ids_ok (add_or_update_user uid a b d) = ids_ok d"
  "ids_ok (write_priority uid p d) = ids_ok d"
  by (simp_all add: ids_ok_def)

lemma ids_ok_add: "ids_ok d \<Longrightarrow> ids_ok (snd (add_download now uid url t f d))"
  by (auto simp: ids_ok_def add_download_def Let_def list_all_iff)

lemma ids_ok_member:
  "ids_ok d \<Longrightarrow> r \<in> set (downloads d) \<Longrightarrow> get_download (download_id r) d = Some r"
  by (simp add: ids_ok_def get_download_distinct)

lemma consistent_init: "consistent c init"
  by (simp add: consistent_def ids_ok_def fetch_ok_def init_def init_db_def)
lemma fetch_ok_idle:
  "inflight s = None \<Longrightarrow> fetch_ok c s = (\<forall>r\<in>set (downloads (db s)). \<not> fetching r)"
  by (simp add: fetch_ok_def list_all_iff)

lemma fetch_ok_busy:
  "inflight s = Some r0 \<Longrightarrow>
     fetch_ok c s =
       (0 < max_concurrent_downloads c
        \<and> map_option status (get_download (download_id r0) (db s)) = Some ''downloading''
        \<and> (\<forall>r\<in>set (downloads (db s)). fetching r \<longrightarrow> download_id r = download_id r0))"
  by (simp add: fetch_ok_def list_all_iff)

lemma fetch_ok_same:
  assumes "fetch_ok c s" "db s' = db s" "inflight s' = inflight s"
  shows "fetch_ok c s'"
  using assms by (simp add: fetch_ok_def split: option.splits)

lemma fetch_ok_users:
  assumes "fetch_ok c s" "downloads (db s') = downloads (db s)" "inflight s' = inflight s"
  shows "fetch_ok c s'"
  using assms by (simp add: fetch_ok_def get_download_def split: option.splits)

lemma fetch_ok_write_idle:
  assumes ok: "fetch_ok c s" and idle: "inflight s = None"
    and st: "st \<noteq> ''downloading''" "st \<noteq> ''converting''"
    and d': "db s' = update_download_status now i st fp sz err (db s)"
    and i': "inflight s' = None"
  shows "fetch_ok c s'"
proof -
  from ok idle have none: "\<forall>r\<in>set (downloads (db s)). \<not> fetching r"
    by (simp add: fetch_ok_idle)
  have "\<forall>y\<in>set (downloads (db s')). \<not> fetching y"
  proof
    fix y assume y: "y \<in> set (downloads (db s'))"
    show "\<not> fetching y"
    proof
      assume "fetching y"
      with y d' fetching_after_status [of y now i st fp sz err "db s"] st none
      show False by auto
    qed
  qed
  with i' show ?thesis by (simp add: fetch_ok_idle)
qed

lemma fetch_ok_admit:
  assumes ok: "fetch_ok c s" and ids: "ids_ok (db s)" and idle: "inflight s = None"
    and sel: "select_pending (max_concurrent_downloads c) now (db s) = Some r"
    and d': "db s' = update_download_status now' (download_id r) ''downloading''
               None None None (db s)"
    and i': "inflight s' = Some r"
  shows "fetch_ok c s'"
proof -
  from select_pending_member [OF sel]
  have mem: "r \<in> set (downloads (db s))"
    and lt: "int (count_active_downloads (db s)) < max_concurrent_downloads c"
    by simp_all
  have g: "get_download (download_id r) (db s) = Some r"
    using ids mem by (rule ids_ok_member)
  have pos: "0 < max_concurrent_downloads c" using lt by linarith
  from ok idle have none: "\<forall>r\<in>set (downloads (db s)). \<not> fetching r"
    by (simp add: fetch_ok_idle)
  have st: "map_option status (get_download (download_id r) (db s')) = Some ''downloading''"
    using g d' by (simp add: get_download_update_status)
  have only: "\<forall>y\<in>set (downloads (db s')). fetching y \<longrightarrow> download_id y = download_id r"
  proof (intro ballI impI)
    fix y assume y: "y \<in> set (downloads (db s'))" and f: "fetching y"
    from y d' f fetching_after_status [of y now' "download_id r" "''downloading''" None None None "db s"]
      none
    show "download_id y = download_id r" by auto
  qed
  from pos st only i' show ?thesis by (simp add: fetch_ok_busy)
qed

lemma fetch_ok_finish:
  assumes ok: "fetch_ok c s" and fl: "inflight s = Some r"
    and st: "st \<noteq> ''downloading''" "st \<noteq> ''converting''"
    and d': "db s' = update_download_status now (download_id r) st fp sz err (db s)"
    and i': "inflight s' = None"
  shows "fetch_ok c s'"
proof -
  from ok fl have only: "\<forall>x\<in>set (downloads (db s)). fetching x \<longrightarrow> download_id x = download_id r"
    by (simp add: fetch_ok_busy)
  have "\<forall>y\<in>set (downloads (db s')). \<not> fetching y"
  proof
    fix y assume y: "y \<in> set (downloads (db s'))"
    show "\<not> fetching y"
    proof
      assume "fetching y"
      with y d' fetching_after_status [of y now "download_id r" st fp sz err "db s"] st only
      show False by auto
    qed
  qed
  with i' show ?thesis by (simp add: fetch_ok_idle)
qed

lemma fetch_ok_relay:
  assumes ok: "fetch_ok c s"
    and d': "db s' = update_download_progress i pct sp eta (db s)"
    and i': "inflight s' = inflight s"
  shows "fetch_ok c s'"
proof (cases "inflight s")
  case None
  with ok have none: "\<forall>r\<in>set (downloads (db s)). \<not> fetching r"
    by (simp add: fetch_ok_idle)
  have "\<forall>y\<in>set (downloads (db s')). \<not> fetching y"
    using none d' fetching_after_progress [of _ i pct sp eta "db s"] by auto
  with None i' show ?thesis by (simp add: fetch_ok_idle)
next
  case (Some r0)
  with ok have pos: "0 < max_concurrent_downloads c"
    and g: "map_option status (get_download (download_id r0) (db s)) = Some ''downloading''"
    and only: "\<forall>x\<in>set (downloads (db s)). fetching x \<longrightarrow> download_id x = download_id r0"
    by (simp_all add: fetch_ok_busy)
  have g': "map_option status (get_download (download_id r0) (db s')) = Some ''downloading''"
    using g d' by (auto simp: get_download_update_progress)
  have only': "\<forall>y\<in>set (downloads (db s')). fetching y \<longrightarrow> download_id y = download_id r0"
  proof (intro ballI impI)
    fix y assume "y \<in> set (downloads (db s'))" "fetching y"
    with d' fetching_after_progress [of y i pct sp eta "db s"] only
    show "download_id y = download_id r0" by auto
  qed
  from Some i' pos g' only' show ?thesis by (simp add: fetch_ok_busy)
qed

lemma fetch_ok_sending:
  assumes ok: "fetch_ok c s" and g: "get_download i (db s) = Some r"
    and st: "status r = ''completed''"
    and d': "db s' = update_download_status now i ''sending'' None None None (db s)"
    and i': "inflight s' = inflight s"
  shows "fetch_ok c s'"
proof (cases "inflight s")
  case None
  from ok None d' i' show ?thesis
    by (intro fetch_ok_write_idle [of c s "''sending''" s' now i None None None]) simp_all
next
  case (Some r0)
  with ok have pos: "0 < max_concurrent_downloads c"
    and g0: "map_option status (get_download (download_id r0) (db s)) = Some ''downloading''"
    and only: "\<forall>x\<in>set (downloads (db s)). fetching x \<longrightarrow> download_id x = download_id r0"
    by (simp_all add: fetch_ok_busy)
  from g0 g st have ne: "download_id r0 \<noteq> i" by auto
  have g': "map_option status (get_download (download_id r0) (db s')) = Some ''downloading''"
    using g0 d' ne by (simp add: get_download_update_status)
  have only': "\<forall>y\<in>set (downloads (db s')). fetching y \<longrightarrow> download_id y = download_id r0"
  proof (intro ballI impI)
    fix y assume "y \<in> set (downloads (db s'))" "fetching y"
    with d' fetching_after_status [of y now i "''sending''" None None None "db s"] only
    show "download_id y = download_id r0" by auto
  qed
  from Some i' pos g' only' show ?thesis by (simp add: fetch_ok_busy)
qed

lemma fetch_ok_add:
  assumes ok: "fetch_ok c s"
    and d': "db s' = snd (add_download now uid url t f (db s))"
    and i': "inflight s' = inflight s"
  shows "fetch_ok c s'"
proof -
  have rows: "set (downloads (db s')) =
      insert (last (downloads (db s'))) (set (downloads (db s)))"
    and pend: "status (last (downloads (db s'))) = ''pending''"
    using d' by (simp_all add: add_download_def Let_def)
  have nf: "\<not> fetching (last (downloads (db s')))"
    using pend by (simp add: fetching_def)
  show ?thesis
  proof (cases "inflight s")
    case None
    with ok have "\<forall>r\<in>set (downloads (db s)). \<not> fetching r" by (simp add: fetch_ok_idle)
    with rows nf have "\<forall>r\<in>set (downloads (db s')). \<not> fetching r" by auto
    with None i' show ?thesis by (simp add: fetch_ok_idle)
  next
    case (Some r0)
    with ok have pos: "0 < max_concurrent_downloads c"
      and g0: "map_option status (get_download (download_id r0) (db s)) = Some ''downloading''"
      and only: "\<forall>x\<in>set (downloads (db s)). fetching x \<longrightarrow> download_id x = download_id r0"
      by (simp_all add: fetch_ok_busy)
    from g0 obtain x where x: "get_download (download_id r0) (db s) = Some x"
      and sx: "status x = ''downloading''" by auto
    have g': "map_option status (get_download (download_id r0) (db s')) = Some ''downloading''"
      using get_download_add_old [OF x] sx d' by simp
    have only': "\<forall>y\<in>set (downloads (db s')). fetching y \<longrightarrow> download_id y = download_id r0"
      using rows nf only by auto
    from Some i' pos g' only' show ?thesis by (simp add: fetch_ok_busy)
  qed
qed
lemma send_completed_download_cases:
  "(db (fst (send_completed_download mx now sent r s)) = db s
    \<or> db (fst (send_completed_download mx now sent r s)) =
        update_download_status now (download_id r) ''sending'' None None None (db s))
   \<and> inflight (fst (send_completed_download mx now sent r s)) = inflight s"
  unfolding send_completed_download_def Let_def
  by (simp split: option.splits prod.splits)

lemma consistent_send:
  assumes c: "consistent c s" and g: "get_download (download_id r) (db s) = Some r"
    and st: "status r = ''completed''"
  shows "consistent c (fst (send_completed_download mx now sent r s))"
proof -
  let ?s' = "fst (send_completed_download mx now sent r s)"
  from send_completed_download_cases [of mx now sent r s]
  have i': "inflight ?s' = inflight s"
    and d': "db ?s' = db s
       \<or> db ?s' = update_download_status now (download_id r) ''sending'' None None None (db s)"
    by simp_all
  from d' show ?thesis
  proof
    assume "db ?s' = db s"
    with c i' show ?thesis
      by (simp add: consistent_def fetch_ok_same [of c s ?s'])
  next
    assume u: "db ?s' = update_download_status now (download_id r) ''sending'' None None None (db s)"
    from c have "fetch_ok c s" by (simp add: consistent_def)
    from fetch_ok_sending [OF this g st u i'] c u show ?thesis
      by (simp add: consistent_def)
  qed
qed

lemma consistent_observe:
  assumes c: "consistent c s"
  shows "consistent c (observer_finish mx now sent i s)"
proof (cases "i \<in> set (observers s)")
  case False
  with c show ?thesis by (simp add: observer_finish_def)
next
  case True
  let ?s1 = "s\<lparr>observers := removeAll i (observers s)\<rparr>"
  have c1: "consistent c ?s1"
    using c by (simp add: consistent_def fetch_ok_same [of c s ?s1])
  show ?thesis
  proof (cases "get_download i (db s)")
    case None
    with True c1 show ?thesis by (simp add: observer_finish_def)
  next
    case (Some r)
    then have id: "download_id r = i" by (simp add: get_download_member)
    show ?thesis
    proof (cases "status r = ''completed''")
      case st: True
      have "get_download (download_id r) (db ?s1) = Some r" using Some id by simp
      from consistent_send [OF c1 this st, of mx now sent] True Some st
      show ?thesis by (simp add: observer_finish_def)
    next
      case False
      with True Some c c1 show ?thesis by (simp add: observer_finish_def)
    qed
  qed
qed

lemma consistent_submit:
  assumes c: "consistent c s"
  shows "consistent c (snd (handle_download_callback now uid url fmt msg s))"
proof (cases "cache_hit url fmt s")
  case (Some h)
  with c show ?thesis by (simp add: handle_download_callback_def)
next
  case None
  let ?s' = "snd (handle_download_callback now uid url fmt msg s)"
  have d': "db ?s' = snd (add_download now uid url None (Some fmt) (db s))"
    and i': "inflight ?s' = inflight s"
    using None by (simp_all add: handle_download_callback_def split: prod.splits)
  from c have "ids_ok (db ?s')" using d' by (simp add: consistent_def ids_ok_add)
  moreover from c have "fetch_ok c ?s'"
    using fetch_ok_add [OF _ d' i'] by (simp add: consistent_def)
  ultimately show ?thesis by (simp add: consistent_def)
qed

lemma consistent_pass:
  assumes c: "consistent c s"
  shows "consistent c (step c (Pass now mk) s)"
proof (cases "inflight s")
  case (Some r)
  with c show ?thesis by simp
next
  case None
  show ?thesis
  proof (cases "select_pending (max_concurrent_downloads c) now (db s)")
    case n: None
    with None c show ?thesis by simp
  next
    case (Some r)
    from c have ids: "ids_ok (db s)" and ok: "fetch_ok c s" by (simp_all add: consistent_def)
    from process_download_begin_cases [of now mk r "db s"] show ?thesis
    proof
      assume b: "process_download_begin now mk r (db s) =
        (update_download_status now (download_id r) ''downloading'' None None None (db s), True)"
      let ?s' = "step c (Pass now mk) s"
      have d': "db ?s' = update_download_status now (download_id r) ''downloading''
                  None None None (db s)"
        and i': "inflight ?s' = Some r"
        using None Some b by simp_all
      from fetch_ok_admit [OF ok ids None Some d' i'] ids d' show ?thesis
        by (simp add: consistent_def)
    next
      assume "\<exists>e. process_download_begin now mk r (db s) =
        (update_download_status now (download_id r) ''failed'' None None (Some e) (db s), False)"
      then obtain e where b: "process_download_begin now mk r (db s) =
        (update_download_status now (download_id r) ''failed'' None None (Some e) (db s), False)"
        by blast
      let ?s' = "step c (Pass now mk) s"
      have d': "db ?s' = update_download_status now (download_id r) ''failed''
                  None None (Some e) (db s)"
        and i': "inflight ?s' = None"
        using None Some b by simp_all
      from fetch_ok_write_idle [OF ok None _ _ d' i'] ids d' show ?thesis
        by (simp add: consistent_def)
    qed
  qed
qed

lemma consistent_fetched:
  assumes c: "consistent c s"
  shows "consistent c (step c (Fetched now f) s)"
proof (cases "inflight s")
  case None
  with c show ?thesis by simp
next
  case (Some r)
  from c have ids: "ids_ok (db s)" and ok: "fetch_ok c s" by (simp_all add: consistent_def)
  let ?s' = "step c (Fetched now f) s"
  have i': "inflight ?s' = None" using Some by (simp add: Let_def)
  have dd: "db ?s' = process_download_finish now f r (fetch_disk f (disk s)) (db s)"
    using Some by (simp add: Let_def)
  from process_download_finish_cases [of now f r "fetch_disk f (disk s)" "db s"]
  show ?thesis
  proof (elim disjE exE)
    fix fp sz
    assume "process_download_finish now f r (fetch_disk f (disk s)) (db s) =
       update_download_status now (download_id r) ''completed'' fp (Some sz) None (db s)"
    with dd have d': "db ?s' =
       update_download_status now (download_id r) ''completed'' fp (Some sz) None (db s)"
      by simp
    from fetch_ok_finish [OF ok Some _ _ d' i'] ids d' show ?thesis
      by (simp add: consistent_def)
  next
    fix e
    assume "process_download_finish now f r (fetch_disk f (disk s)) (db s) =
       update_download_status now (download_id r) ''failed'' None None (Some e) (db s)"
    with dd have d': "db ?s' =
       update_download_status now (download_id r) ''failed'' None None (Some e) (db s)"
      by simp
    from fetch_ok_finish [OF ok Some _ _ d' i'] ids d' show ?thesis
      by (simp add: consistent_def)
  qed
qed

lemma consistent_relay:
  assumes c: "consistent c s"
  shows "consistent c (step c (Relay pct sp eta) s)"
proof (cases "inflight s")
  case None
  with c show ?thesis by simp
next
  case (Some r)
  let ?s' = "step c (Relay pct sp eta) s"
  have d': "db ?s' = update_download_progress (download_id r) pct sp eta (db s)"
    and i': "inflight ?s' = inflight s" using Some by simp_all
  from c have "fetch_ok c s" by (simp add: consistent_def)
  from fetch_ok_relay [OF this d' i'] c d' show ?thesis by (simp add: consistent_def)
qed

lemma consistent_user_ops:
  assumes c: "consistent c s"
  shows "consistent c (s\<lparr>db := add_or_update_user uid a b (db s)\<rparr>)"
    and "consistent c (s\<lparr>db := write_priority uid p (db s)\<rparr>)"
  using c
  by (simp_all add: consistent_def
      fetch_ok_users [of c s "s\<lparr>db := add_or_update_user uid a b (db s)\<rparr>"]
      fetch_ok_users [of c s "s\<lparr>db := write_priority uid p (db s)\<rparr>"])

lemma consistent_step: "consistent c s \<Longrightarrow> consistent c (step c e s)"
proof (cases e)
  case (Register uid)
  assume "consistent c s"
  with Register show ?thesis by (simp add: consistent_user_ops)
next
  case (GivePriority expiry uid days)
  assume c: "consistent c s"
  have "consistent c (s\<lparr>db := add_or_update_user uid None None (db s)\<rparr>)"
    using c by (rule consistent_user_ops)
  from consistent_user_ops(2) [OF this] GivePriority show ?thesis
    by (simp add: set_priority_def)
next
  case (RemovePriority uid)
  assume "consistent c s"
  with RemovePriority show ?thesis
    by (simp add: admin_remove_priority_def consistent_user_ops)
next
  case (Submit now uid url fmt)
  assume "consistent c s"
  with Submit show ?thesis by (simp add: consistent_submit)
next
  case (Pass now mk)
  assume "consistent c s"
  with Pass show ?thesis by (simp only: consistent_pass)
next
  case (Relay pct sp eta)
  assume "consistent c s"
  with Relay show ?thesis by (simp only: consistent_relay)
next
  case (Fetched now f)
  assume "consistent c s"
  with Fetched show ?thesis by (simp only: consistent_fetched)
next
  case (Observe now i sent)
  assume "consistent c s"
  with Observe show ?thesis by (simp add: consistent_observe)
next
  case Cleanup
  assume c: "consistent c s"
  have "consistent c (cleanup_caches s)"
    using c by (simp add: cleanup_caches_def consistent_def
        fetch_ok_same [of c s "s\<lparr>progress_messages := Map.empty\<rparr>"])
  with Cleanup show ?thesis by simp
next
  case (RemoveFile p)
  assume c: "consistent c s"
  with RemoveFile show ?thesis
    by (simp add: consistent_def fetch_ok_same [of c s "s\<lparr>disk := (disk s)(p := None)\<rparr>"])
qed

lemma run_append: "run c (es @ es') s = run c es' (run c es s)"
  by (induction es arbitrary: s) simp_all

lemma consistent_run: "consistent c s \<Longrightarrow> consistent c (run c es s)"
  by (induction es arbitrary: s) (simp_all add: consistent_step)

lemma consistent_reachable: "consistent c (run c es init)"
  by (rule consistent_run) (rule consistent_init)

text \<open>
  A whole pass of \<open>_run_loop\<close>, which runs \<open>_process_download\<close> to its end, is the
  event \<open>Pass\<close> followed by the event \<open>Fetched\<close>; between the two, the other threads
  take their steps.
\<close>

lemma run_loop_pass_as_steps:
  assumes "inflight s = None"
  shows "run c [Pass now mk, Fetched fin f] s =
           run_loop_pass (max_concurrent_downloads c) now fin mk f s"
proof (cases "select_pending (max_concurrent_downloads c) now (db s)")
  case None
  with assms show ?thesis by (simp add: run_loop_pass_def)
next
  case (Some r)
  obtain d1 w where b: "process_download_begin now mk r (db s) = (d1, w)"
    by (cases "process_download_begin now mk r (db s)")
  show ?thesis
  proof (cases w)
    case True
    with assms Some b show ?thesis
      by (simp add: run_loop_pass_def process_download_def Let_def)
  next
    case False
    with assms Some b show ?thesis
      by (simp add: run_loop_pass_def process_download_def)
  qed
qed
section \<open>What one step does to the table of jobs\<close>

lemma step_db:
  assumes c: "consistent c s"
  shows "downloads (db (step c e s)) = downloads (db s)
    \<or> (\<exists>now i st fp sz err r. get_download i (db s) = Some r \<and> (status r, st) \<in> set moves
          \<and> db (step c e s) = update_download_status now i st fp sz err (db s))
    \<or> (\<exists>i pct sp eta r. get_download i (db s) = Some r \<and> status r = ''downloading''
          \<and> db (step c e s) = update_download_progress i pct sp eta (db s))
    \<or> (\<exists>now uid url t f. db (step c e s) = snd (add_download now uid url t f (db s)))"
    (is "?same \<or> ?upd \<or> ?relay \<or> ?add")
proof -
  from c have ids: "ids_ok (db s)" and ok: "fetch_ok c s" by (simp_all add: consistent_def)
  have held: "\<And>r0. inflight s = Some r0 \<Longrightarrow>
      \<exists>x. get_download (download_id r0) (db s) = Some x \<and> status x = ''downloading''"
    using ok by (auto simp: fetch_ok_busy)
  show ?thesis
  proof (cases e)
    case (Register uid)
    then have ?same by simp
    then show ?thesis by blast
  next
    case (GivePriority expiry uid days)
    then have ?same by (simp add: set_priority_def)
    then show ?thesis by blast
  next
    case (RemovePriority uid)
    then have ?same by (simp add: admin_remove_priority_def)
    then show ?thesis by blast
  next
    case (Submit now uid url fmt)
    show ?thesis
    proof (cases "cache_hit url fmt s")
      case (Some h)
      with Submit have ?same by (simp add: handle_download_callback_def)
      then show ?thesis by blast
    next
      case None
      with Submit have "db (step c e s) = snd (add_download now uid url None (Some fmt) (db s))"
        by (simp add: handle_download_callback_def split: prod.splits)
      then have ?add by blast
      then show ?thesis by blast
    qed
  next
    case (Pass now mk)
    show ?thesis
    proof (cases "inflight s")
      case (Some r0)
      with Pass have ?same by simp
      then show ?thesis by blast
    next
      case None
      show ?thesis
      proof (cases "select_pending (max_concurrent_downloads c) now (db s)")
        case n: None
        with None Pass have ?same by simp
        then show ?thesis by blast
      next
        case (Some r)
        from select_pending_member [OF Some]
        have mem: "r \<in> set (downloads (db s))" and st: "status r = ''pending''" by simp_all
        have g: "get_download (download_id r) (db s) = Some r"
          using ids mem by (rule ids_ok_member)
        have "\<exists>st' err. (st' = ''downloading'' \<or> st' = ''failed'')
                \<and> fst (process_download_begin now mk r (db s)) =
                    update_download_status now (download_id r) st' None None err (db s)"
        proof (cases mk)
          case (Returned u)
          then have "fst (process_download_begin now mk r (db s)) =
              update_download_status now (download_id r) ''downloading'' None None None (db s)"
            by (simp add: process_download_begin_def)
          then show ?thesis by blast
        next
          case (Raised x)
          then have "fst (process_download_begin now mk r (db s)) =
              update_download_status now (download_id r) ''failed'' None None
                (Some (exn_text x)) (db s)"
            by (simp add: process_download_begin_def on_exception_eq)
          then show ?thesis by blast
        qed
        then obtain st' err where st': "st' = ''downloading'' \<or> st' = ''failed''"
          and b: "fst (process_download_begin now mk r (db s)) =
                    update_download_status now (download_id r) st' None None err (db s)"
          by blast
        have d': "db (step c e s) = update_download_status now (download_id r) st' None None err (db s)"
          using Pass None Some b by (simp add: case_prod_beta)
        have "(status r, st') \<in> set moves" using st st' by (auto simp: moves_def)
        with g d' have ?upd by blast
        then show ?thesis by blast
      qed
    qed
  next
    case (Relay pct sp eta)
    show ?thesis
    proof (cases "inflight s")
      case None
      with Relay have ?same by simp
      then show ?thesis by blast
    next
      case (Some r0)
      from held [OF Some] obtain x where "get_download (download_id r0) (db s) = Some x"
        "status x = ''downloading''" by blast
      moreover have "db (step c e s) = update_download_progress (download_id r0) pct sp eta (db s)"
        using Relay Some by simp
      ultimately have ?relay by blast
      then show ?thesis by blast
    qed
  next
    case (Fetched now f)
    show ?thesis
    proof (cases "inflight s")
      case None
      with Fetched have ?same by simp
      then show ?thesis by blast
    next
      case (Some r0)
      from held [OF Some] obtain x where x: "get_download (download_id r0) (db s) = Some x"
        and sx: "status x = ''downloading''" by blast
      have dd: "db (step c e s) = process_download_finish now f r0 (fetch_disk f (disk s)) (db s)"
        using Fetched Some by (simp add: Let_def)
      have "\<exists>st' fp sz err. (st' = ''completed'' \<or> st' = ''failed'')
          \<and> process_download_finish now f r0 (fetch_disk f (disk s)) (db s) =
                  update_download_status now (download_id r0) st' fp sz err (db s)"
        using process_download_finish_cases [of now f r0 "fetch_disk f (disk s)" "db s"]
      proof (elim disjE exE)
        fix fp sz
        assume "process_download_finish now f r0 (fetch_disk f (disk s)) (db s) =
          update_download_status now (download_id r0) ''completed'' fp (Some sz) None (db s)"
        then show ?thesis by blast
      next
        fix e'
        assume "process_download_finish now f r0 (fetch_disk f (disk s)) (db s) =
          update_download_status now (download_id r0) ''failed'' None None (Some e') (db s)"
        then show ?thesis by blast
      qed
      then obtain st' fp sz err where st': "st' = ''completed'' \<or> st' = ''failed''"
        and b: "process_download_finish now f r0 (fetch_disk f (disk s)) (db s) =
                  update_download_status now (download_id r0) st' fp sz err (db s)"
        by blast
      have "(status x, st') \<in> set moves" using sx st' by (auto simp: moves_def)
      moreover have "db (step c e s) = update_download_status now (download_id r0) st' fp sz err (db s)"
        using dd b by simp
      ultimately have ?upd using x by blast
      then show ?thesis by blast
    qed
  next
    case (Observe now i sent)
    show ?thesis
    proof (cases "i \<in> set (observers s) \<and> (\<exists>r. get_download i (db s) = Some r \<and> status r = ''completed'')")
      case False
      have "downloads (db (observer_finish (max_file_size_mb c) now sent i s)) = downloads (db s)"
      proof (cases "i \<in> set (observers s)")
        case nm: False
        then show ?thesis by (simp add: observer_finish_def)
      next
        case m: True
        show ?thesis
        proof (cases "get_download i (db s)")
          case None
          with m show ?thesis by (simp add: observer_finish_def)
        next
          case (Some r)
          with m False have "status r \<noteq> ''completed''" by simp
          with m Some show ?thesis by (simp add: observer_finish_def)
        qed
      qed
      with Observe have ?same by simp
      then show ?thesis by blast
    next
      case True
      then obtain r where mem: "i \<in> set (observers s)" and g: "get_download i (db s) = Some r"
        and st: "status r = ''completed''" by blast
      let ?s1 = "s\<lparr>observers := removeAll i (observers s)\<rparr>"
      have id: "download_id r = i" using g by (simp add: get_download_member)
      have eq: "step c e s = fst (send_completed_download (max_file_size_mb c) now sent r ?s1)"
        using Observe mem g st by (simp add: observer_finish_def)
      from send_completed_download_cases [of "max_file_size_mb c" now sent r ?s1] eq id
      have "db (step c e s) = db s
          \<or> db (step c e s) = update_download_status now i ''sending'' None None None (db s)"
        by simp
      then show ?thesis
      proof
        assume "db (step c e s) = db s"
        then have ?same by simp
        then show ?thesis by blast
      next
        assume u: "db (step c e s) = update_download_status now i ''sending'' None None None (db s)"
        have "(status r, ''sending'') \<in> set moves" using st by (simp add: moves_def)
        with g u have ?upd by blast
        then show ?thesis by blast
      qed
    qed
  next
    case Cleanup
    then have ?same by (simp add: cleanup_caches_def)
    then show ?thesis by blast
  next
    case (RemoveFile p)
    then have ?same by simp
    then show ?thesis by blast
  qed
qed

lemma get_download_same_rows:
  "downloads d' = downloads d \<Longrightarrow> get_download i d' = get_download i d"
  by (simp add: get_download_def)

lemma step_status:
  assumes c: "consistent c s" and g: "get_download i (db s) = Some r"
  shows "\<exists>r'. get_download i (db (step c e s)) = Some r'
           \<and> (status r' = status r \<or> (status r, status r') \<in> set moves)"
  using step_db [OF c, of e]
proof (elim disjE exE conjE)
  assume "downloads (db (step c e s)) = downloads (db s)"
  from get_download_same_rows [OF this, of i] g show ?thesis by simp
next
  fix now j st fp sz err x
  assume x: "get_download j (db s) = Some x" and m: "(status x, st) \<in> set moves"
    and d': "db (step c e s) = update_download_status now j st fp sz err (db s)"
  show ?thesis
  proof (cases "i = j")
    case True
    with g x have "x = r" by simp
    with True g m d' show ?thesis by (simp add: get_download_update_status)
  next
    case False
    with g d' show ?thesis by (simp add: get_download_update_status)
  qed
next
  fix j pct sp eta x
  assume "db (step c e s) = update_download_progress j pct sp eta (db s)"
  with g show ?thesis by (cases "i = j") (simp_all add: get_download_update_progress)
next
  fix now uid url t f
  assume "db (step c e s) = snd (add_download now uid url t f (db s))"
  with get_download_add_old [OF g] show ?thesis by simp
qed

lemma step_frozen:
  assumes c: "consistent c s" and g: "get_download i (db s) = Some r"
    and st: "status r = ''sending'' \<or> status r = ''failed''"
  shows "get_download i (db (step c e s)) = Some r"
  using step_db [OF c, of e]
proof (elim disjE exE conjE)
  assume "downloads (db (step c e s)) = downloads (db s)"
  from get_download_same_rows [OF this, of i] g show ?thesis by simp
next
  fix now j st' fp sz err x
  assume x: "get_download j (db s) = Some x" and m: "(status x, st') \<in> set moves"
    and d': "db (step c e s) = update_download_status now j st' fp sz err (db s)"
  have "i \<noteq> j"
  proof
    assume "i = j"
    with g x have "x = r" by simp
    with m st show False by (auto simp: moves_def)
  qed
  with g d' show ?thesis by (simp add: get_download_update_status)
next
  fix j pct sp eta x
  assume x: "get_download j (db s) = Some x" and sx: "status x = ''downloading''"
    and d': "db (step c e s) = update_download_progress j pct sp eta (db s)"
  have "i \<noteq> j"
  proof
    assume "i = j"
    with g x have "x = r" by simp
    with sx st show False by auto
  qed
  with g d' show ?thesis by (simp add: get_download_update_progress)
next
  fix now uid url t f
  assume "db (step c e s) = snd (add_download now uid url t f (db s))"
  with get_download_add_old [OF g] show ?thesis by simp
qed

lemma run_frozen:
  assumes "consistent c s" "get_download i (db s) = Some r"
    "status r = ''sending'' \<or> status r = ''failed''"
  shows "get_download i (db (run c es s)) = Some r"
  using assms
proof (induction es arbitrary: s)
  case Nil
  then show ?case by simp
next
  case (Cons e es)
  have "consistent c (step c e s)" using Cons.prems(1) by (rule consistent_step)
  moreover have "get_download i (db (step c e s)) = Some r"
    using Cons.prems by (rule step_frozen)
  ultimately show ?case using Cons.IH Cons.prems(3) by simp
qed
section \<open>The concrete runs, evaluated\<close>

lemma cfg1_fields [simp]:
  "max_concurrent_downloads cfg1 = 1" "max_file_size_mb cfg1 = 50"
  by (simp_all add: cfg1_def)

lemmas model_defs =
  at_1000_def at_1030_def at_1100_def noon_def midnight_def
  in_5_days_def handle_download_callback_def cache_hit_def
  get_completed_download_by_url_format_def add_download_def add_or_update_user_def
  set_priority_def write_priority_def admin_remove_priority_def
  sql_datetime_def isoformat_def render_def pad2_def pad4_def digit_def
  select_pending_def count_active_downloads_def is_active_def get_all_pending_downloads_def
  pending_key_def priority_case_def process_download_begin_def process_download_finish_def
  update_download_status_def update_download_progress_def fetch_call_def fetch_disk_def
  download_video_def stat_size_def basename_def on_exception_def metadata_error_def
  observer_finish_def send_completed_download_def get_download_def inline_kind_def
  suffix_of_def lower_def lower_char_def cleanup_caches_def Let_def

lemma submitted_state:
  "run cfg1 run_submitted init =
     \<lparr>db = \<lparr>downloads =
              [\<lparr>download_id = 1, user_id = 7, video_url = ''L'', video_title = None,
                file_path = None, file_size_bytes = None,
                format = Some ''720p'', status = ''pending'', progress = 0,
                speed_mbps = None, eta_seconds = None, created_at = ''2026-11-03 10:00:00'',
                completed_at = None, error_message = None\<rparr>],
            seq = 1,
            users = [7 \<mapsto> \<lparr>username = None, first_name = None, priority_until = None\<rparr>]\<rparr>,
      disk = Map.empty,
      progress_messages = [1 \<mapsto> (0, 0)],
      observers = [1],
      inflight = None\<rparr>"
  by (simp add: run_submitted_def init_def init_db_def model_defs)

lemma admitted_state:
  "run cfg1 run_admitted init =
     \<lparr>db = \<lparr>downloads =
              [\<lparr>download_id = 1, user_id = 7, video_url = ''L'', video_title = None,
                file_path = None, file_size_bytes = None,
                format = Some ''720p'', status = ''downloading'', progress = 0,
                speed_mbps = None, eta_seconds = None, created_at = ''2026-11-03 10:00:00'',
                completed_at = None, error_message = None\<rparr>],
            seq = 1,
            users = [7 \<mapsto> \<lparr>username = None, first_name = None, priority_until = None\<rparr>]\<rparr>,
      disk = Map.empty,
      progress_messages = [1 \<mapsto> (0, 0)],
      observers = [1],
      inflight = Some
             \<lparr>download_id = 1, user_id = 7, video_url = ''L'', video_title = None,
                file_path = None, file_size_bytes = None,
                format = Some ''720p'', status = ''pending'', progress = 0,
                speed_mbps = None, eta_seconds = None, created_at = ''2026-11-03 10:00:00'',
                completed_at = None, error_message = None\<rparr>\<rparr>"
  by (simp add: run_admitted_def init_def init_db_def model_defs)

lemma fetched_state:
  "run cfg1 [Register 7, Submit at_1000 7 ''L'' ''720p'', Pass at_1000 (Returned ()),
             Fetched at_1030 (Engine (Downloaded ''/storage/7/a.mp4'' sz))] init =
     \<lparr>db = \<lparr>downloads =
              [\<lparr>download_id = 1, user_id = 7, video_url = ''L'', video_title = None,
                file_path = Some ''/storage/7/a.mp4'', file_size_bytes = Some sz,
                format = Some ''720p'', status = ''completed'', progress = 0,
                speed_mbps = None, eta_seconds = None, created_at = ''2026-11-03 10:00:00'',
                completed_at = Some ''2026-11-03T10:30:00'', error_message = None\<rparr>],
            seq = 1,
            users = [7 \<mapsto> \<lparr>username = None, first_name = None, priority_until = None\<rparr>]\<rparr>,
      disk = [''/storage/7/a.mp4'' \<mapsto> sz],
      progress_messages = [1 \<mapsto> (0, 0)],
      observers = [1],
      inflight = None\<rparr>"
  by (simp add: init_def init_db_def model_defs)

lemmas completed_state = fetched_state [of 100, folded run_completed_def]
lemmas large_state = fetched_state [of 60000000, folded run_large_def]


lemma large_delivered_state:
  "run cfg1 run_large_delivered init =
     \<lparr>db = \<lparr>downloads =
              [\<lparr>download_id = 1, user_id = 7, video_url = ''L'', video_title = None,
                file_path = None, file_size_bytes = None,
                format = Some ''720p'', status = ''sending'', progress = 0,
                speed_mbps = None, eta_seconds = None, created_at = ''2026-11-03 10:00:00'',
                completed_at = None, error_message = None\<rparr>],
            seq = 1,
            users = [7 \<mapsto> \<lparr>username = None, first_name = None, priority_until = None\<rparr>]\<rparr>,
      disk = [''/storage/7/a.mp4'' \<mapsto> 60000000],
      progress_messages = [1 \<mapsto> (0, 0)],
      observers = [],
      inflight = None\<rparr>"
  by (simp add: run_large_delivered_def run_append large_state model_defs)
section \<open>The claims\<close>

text \<open>
  C9. For every job and every status \<open>s\<close>, \<open>update_download_status(jobId, s)\<close> with the
  optional path, size and error arguments omitted overwrites \<open>file_path\<close>,
  \<open>file_size_bytes\<close> and \<open>error_message\<close> with NULL, and \<open>completed_at\<close> with NULL
  unless \<open>s\<close> is \<open>completed\<close>: what the call does not supply is cleared, not kept.
\<close>

theorem update_download_status_clears:
  assumes "get_download i d = Some r"
  shows "get_download i (update_download_status now i s None None None d) =
     Some (r\<lparr>status := s, file_path := None, file_size_bytes := None, error_message := None,
             completed_at := (if s = ''completed'' then Some (isoformat now) else None)\<rparr>)"
  using assms by (simp add: get_download_update_status)

theorem update_download_status_clears_witness:
  "map_option (\<lambda>r. (status r, file_path r, file_size_bytes r, completed_at r))
     (get_download 1 (db (run cfg1 run_completed init))) =
     Some (''completed'', Some ''/storage/7/a.mp4'', Some 100, Some ''2026-11-03T10:30:00'')
   \<and> map_option (\<lambda>r. (status r, file_path r, file_size_bytes r, error_message r, completed_at r))
     (get_download 1 (update_download_status noon 1 ''sending'' None None None
        (db (run cfg1 run_completed init)))) =
     Some (''sending'', None, None, None, None)"
proof -
  have h: "map_option (\<lambda>r. (status r, file_path r, file_size_bytes r, completed_at r))
     (get_download 1 (db (run cfg1 run_completed init))) =
     Some (''completed'', Some ''/storage/7/a.mp4'', Some 100, Some ''2026-11-03T10:30:00'')"
    by (simp add: completed_state get_download_def)
  then obtain r where r: "get_download 1 (db (run cfg1 run_completed init)) = Some r"
    by blast
  show ?thesis
    using h update_download_status_clears [OF r, of noon "''sending''"] by simp
qed

lemma active_counted:
  assumes "get_download i d = Some r" "is_active r"
  shows "0 < count_active_downloads d"
proof -
  from assms(1) have "r \<in> set (downloads d)" by (simp add: get_download_member)
  with assms(2) have "r \<in> set (filter is_active (downloads d))" by simp
  then have "filter is_active (downloads d) \<noteq> []" by (metis empty_iff list.set(1))
  then show ?thesis by (simp add: count_active_downloads_def)
qed

text \<open>
  C10. Once the delivery step has set a job's status to \<open>sending\<close>, no operation of the
  program sets that job's status to \<open>completed\<close> or to any other value again: in every
  later state the job is still in \<open>sending\<close>, and \<open>count_active_downloads\<close> counts it.
\<close>

theorem sending_is_absorbing:
  assumes "map_option status (get_download i (db (run c es init))) = Some ''sending''"
  shows "map_option status (get_download i (db (run c (es @ es') init))) = Some ''sending''
         \<and> 0 < count_active_downloads (db (run c (es @ es') init))"
proof -
  let ?s = "run c es init"
  from assms obtain r where r: "get_download i (db ?s) = Some r"
    and st: "status r = ''sending''" by auto
  have "consistent c ?s" by (rule consistent_reachable)
  from run_frozen [OF this r, of es'] st
  have g: "get_download i (db (run c (es @ es') init)) = Some r"
    by (simp add: run_append)
  have "is_active r" using st by (simp add: is_active_def)
  from active_counted [OF g this] g st show ?thesis by simp
qed

theorem sending_is_absorbing_witness:
  "map_option status (get_download 1 (db (run cfg1 run_delivered init))) = Some ''sending''
   \<and> map_option status (get_download 1 (db (run cfg1 (run_delivered @ run_later) init)))
       = Some ''sending''
   \<and> 0 < count_active_downloads (db (run cfg1 (run_delivered @ run_later) init))"
proof -
  have h: "map_option status (get_download 1 (db (run cfg1 run_delivered init))) = Some ''sending''"
    by (simp add: run_delivered_def run_append completed_state model_defs)
  from sending_is_absorbing [OF h, of run_later] h show ?thesis by simp
qed




text \<open>
  C4, as the claim states it: a job in \<open>completed\<close> never has the status \<open>sending\<close> later.
  In the run below job 1 is in \<open>completed\<close> and the delivery step moves it to \<open>sending\<close>.
\<close>

theorem completed_then_sending:
  "map_option status (get_download 1 (db (run cfg1 run_completed init))) = Some ''completed''
   \<and> map_option status
        (get_download 1 (db (step cfg1 (Observe at_1030 1 True) (run cfg1 run_completed init))))
       = Some ''sending''"
  by (simp add: completed_state model_defs)

text \<open>
  C4, amended. Every step of the program leaves the status of a job as it is or moves it
  by one of \<open>pending \<rightarrow> downloading\<close>, \<open>pending \<rightarrow> failed\<close>, \<open>downloading \<rightarrow> completed\<close>,
  \<open>downloading \<rightarrow> failed\<close>, \<open>completed \<rightarrow> sending\<close>: the order of the statuses is
  pending, downloading, completed, sending, with \<open>failed\<close> entered from \<open>pending\<close> or
  \<open>downloading\<close>, and no step moves a job backwards along it.
\<close>

theorem status_moves_forward:
  assumes "map_option status (get_download i (db (run c es init))) = Some st"
  shows "\<exists>st'. map_option status (get_download i (db (step c e (run c es init)))) = Some st'
           \<and> (st' = st \<or> (st, st') \<in> set moves)"
proof -
  from assms obtain r where r: "get_download i (db (run c es init)) = Some r"
    and st: "status r = st" by auto
  have "consistent c (run c es init)" by (rule consistent_reachable)
  from step_status [OF this r, of e] st show ?thesis by auto
qed

theorem status_moves_forward_witness:
  "map_option status (get_download 1 (db (run cfg1 run_admitted init))) = Some ''downloading''
   \<and> (\<exists>st'. map_option status
          (get_download 1 (db (step cfg1 (Fetched at_1030 (FetchRaised TimeoutExpired))
             (run cfg1 run_admitted init)))) = Some st'
        \<and> (st' = ''downloading'' \<or> (''downloading'', st') \<in> set moves))"
proof -
  have h: "map_option status (get_download 1 (db (run cfg1 run_admitted init)))
      = Some ''downloading''"
    by (simp add: admitted_state get_download_def)
  from status_moves_forward [OF h, of "Fetched at_1030 (FetchRaised TimeoutExpired)"] h
  show ?thesis by simp
qed

lemma run_never_pending_again:
  assumes "consistent c s" "get_download i (db s) = Some r" "status r \<noteq> ''pending''"
  shows "\<exists>r'. get_download i (db (run c es s)) = Some r' \<and> status r' \<noteq> ''pending''"
  using assms
proof (induction es arbitrary: s r)
  case Nil
  then show ?case by simp
next
  case (Cons e es)
  from step_status [OF Cons.prems(1,2), of e]
  obtain r1 where r1: "get_download i (db (step c e s)) = Some r1"
    and m: "status r1 = status r \<or> (status r, status r1) \<in> set moves" by blast
  from m Cons.prems(3) have "status r1 \<noteq> ''pending''" by (auto simp: moves_def)
  moreover have "consistent c (step c e s)" using Cons.prems(1) by (rule consistent_step)
  ultimately show ?case using Cons.IH r1 by simp
qed

text \<open>
  C1, as the claim states it: the admission write succeeds only if the job is still in
  \<open>pending\<close>. In the run below job 1 is in \<open>completed\<close>; a second caller that holds the
  same row enters \<open>_process_download\<close>, and its admission write puts the job into
  \<open>downloading\<close> again and goes on to the fetch.
\<close>

theorem second_admission_succeeds:
  "map_option status (get_download 1 (db (run cfg1 run_completed init))) = Some ''completed''
   \<and> snd (process_download_begin at_1100 (Returned ())
            (the (get_download 1 (db (run cfg1 run_completed init))))
            (db (run cfg1 run_completed init)))
   \<and> map_option status
        (get_download 1
          (fst (process_download_begin at_1100 (Returned ())
                  (the (get_download 1 (db (run cfg1 run_completed init))))
                  (db (run cfg1 run_completed init)))))
       = Some ''downloading''"
  by (simp add: completed_state model_defs)

text \<open>
  C1, amended. The admission write is an unconditional update of the row. A job is
  admitted once because the scheduler is one sequential loop that selects among the jobs
  in \<open>pending\<close> and writes \<open>downloading\<close> (or \<open>failed\<close>) in the same pass: when a pass
  has selected a job, the job is in \<open>downloading\<close> or \<open>failed\<close> after the pass, and
  \<open>get_all_pending_downloads\<close> returns it in no later state, so no later pass selects
  it.
\<close>

theorem pass_admits_once:
  assumes idle: "inflight (run c es init) = None"
    and sel: "select_pending (max_concurrent_downloads c) now (db (run c es init)) = Some r"
  shows "map_option status
           (get_download (download_id r) (db (run c (es @ [Pass now mk]) init)))
           \<in> {Some ''downloading'', Some ''failed''}
         \<and> download_id r \<notin> set (map download_id
               (get_all_pending_downloads now' (db (run c (es @ Pass now mk # es') init))))"
proof -
  let ?s = "run c es init"
  let ?s1 = "step c (Pass now mk) ?s"
  have c: "consistent c ?s" by (rule consistent_reachable)
  then have ids: "ids_ok (db ?s)" by (simp add: consistent_def)
  from select_pending_member [OF sel] have mem: "r \<in> set (downloads (db ?s))" by simp
  have g: "get_download (download_id r) (db ?s) = Some r" using ids mem by (rule ids_ok_member)
  have "\<exists>st' err. (st' = ''downloading'' \<or> st' = ''failed'')
          \<and> db ?s1 = update_download_status now (download_id r) st' None None err (db ?s)"
  proof (cases mk)
    case (Returned u)
    with idle sel have "db ?s1 =
        update_download_status now (download_id r) ''downloading'' None None None (db ?s)"
      by (simp add: process_download_begin_def)
    then show ?thesis by blast
  next
    case (Raised x)
    with idle sel have "db ?s1 =
        update_download_status now (download_id r) ''failed'' None None (Some (exn_text x)) (db ?s)"
      by (simp add: process_download_begin_def on_exception_eq)
    then show ?thesis by blast
  qed
  then obtain st' err where st': "st' = ''downloading'' \<or> st' = ''failed''"
    and d1: "db ?s1 = update_download_status now (download_id r) st' None None err (db ?s)"
    by blast
  from g d1 obtain r1 where g1: "get_download (download_id r) (db ?s1) = Some r1"
    and s1: "status r1 = st'" by (simp add: get_download_update_status)
  have first: "map_option status (get_download (download_id r) (db (run c (es @ [Pass now mk]) init)))
      \<in> {Some ''downloading'', Some ''failed''}"
    using g1 s1 st' by (auto simp: run_append)
  have c1: "consistent c ?s1" using c by (rule consistent_step)
  have np: "status r1 \<noteq> ''pending''" using s1 st' by auto
  let ?s2 = "run c es' ?s1"
  from run_never_pending_again [OF c1 g1 np, of es']
  obtain r2 where g2: "get_download (download_id r) (db ?s2) = Some r2"
    and s2: "status r2 \<noteq> ''pending''" by blast
  have c2: "consistent c ?s2" using c1 by (rule consistent_run)
  then have ids2: "ids_ok (db ?s2)" by (simp add: consistent_def)
  have "download_id r \<notin> set (map download_id (get_all_pending_downloads now' (db ?s2)))"
  proof
    assume "download_id r \<in> set (map download_id (get_all_pending_downloads now' (db ?s2)))"
    then obtain y where y: "y \<in> set (get_all_pending_downloads now' (db ?s2))"
      and iy: "download_id y = download_id r" by auto
    from y have my: "y \<in> set (downloads (db ?s2))" and sy: "status y = ''pending''"
      by (simp_all add: get_all_pending_downloads_def)
    from ids_ok_member [OF ids2 my] iy g2 have "y = r2" by simp
    with sy s2 show False by simp
  qed
  then have second: "download_id r \<notin> set (map download_id
      (get_all_pending_downloads now' (db (run c (es @ Pass now mk # es') init))))"
    by (simp add: run_append)
  from first second show ?thesis by simp
qed

theorem pass_admits_once_witness:
  "inflight (run cfg1 run_submitted init) = None
   \<and> map_option download_id
        (select_pending (max_concurrent_downloads cfg1) at_1000
          (db (run cfg1 run_submitted init))) = Some 1
   \<and> 1 \<notin> set (map download_id
        (get_all_pending_downloads noon
          (db (run cfg1 (run_submitted @ Pass at_1000 (Returned ()) # run_passes) init))))"
proof -
  have i: "inflight (run cfg1 run_submitted init) = None" by (simp add: submitted_state)
  have h: "map_option download_id
        (select_pending (max_concurrent_downloads cfg1) at_1000
          (db (run cfg1 run_submitted init))) = Some 1"
    by (simp add: submitted_state model_defs)
  then obtain r where r: "select_pending (max_concurrent_downloads cfg1) at_1000
      (db (run cfg1 run_submitted init)) = Some r" and ir: "download_id r = 1" by auto
  from pass_admits_once [OF i r, of "Returned ()" noon run_passes] i h ir
  show ?thesis by simp
qed





text \<open>
  C3, as the claim states it: jobs of users with unbounded priority come before jobs of
  users with time-bounded priority. User 1 has five days left, user 2 has unbounded
  priority, user 1 submitted first: the job of user 1 comes first.
\<close>

theorem bounded_before_unbounded:
  "map_option priority_until (users (db (run cfg1 run_two_tiers init)) 1)
     = Some (Some ''2026-11-08T09:00:00'')
   \<and> map_option priority_until (users (db (run cfg1 run_two_tiers init)) 2)
     = Some (Some ''INFINITE'')
   \<and> map user_id (get_all_pending_downloads noon (db (run cfg1 run_two_tiers init))) = [1, 2]"
  by (simp add: run_two_tiers_def init_def init_db_def model_defs)

text \<open>
  C3, amended. \<open>get_all_pending_downloads\<close> returns the pending jobs of the registered
  users in two tiers: first the jobs of users whose \<open>priority_until\<close> is \<open>INFINITE\<close> or
  compares greater than the current \<open>datetime('now')\<close> text, then all others; within a
  tier the job created earlier comes first, so unbounded and time-bounded priority rank
  alike. For three jobs submitted in this order by users with no priority, unbounded
  priority and five days left, the order is unbounded, five days left, none.
\<close>

theorem pending_order_two_tiers:
  "mset (get_all_pending_downloads now d) =
     mset (filter (\<lambda>r. users d (user_id r) \<noteq> None \<and> status r = ''pending'') (downloads d))
   \<and> sorted_wrt (\<lambda>x y. fst (pending_key now d x) < fst (pending_key now d y)
                    \<or> (fst (pending_key now d x) = fst (pending_key now d y)
                        \<and> created_at x \<le> created_at y))
        (get_all_pending_downloads now d)
   \<and> fst (pending_key now d r) =
       (if \<exists>u p. users d (user_id r) = Some u \<and> priority_until u = Some p
                 \<and> (p = ''INFINITE'' \<or> sql_datetime now < p)
        then 0 else 1)
   \<and> map user_id (get_all_pending_downloads noon (db (run cfg1 run_three_users init)))
       = [2, 3, 1]"
proof -
  have perm: "mset (get_all_pending_downloads now d) =
     mset (filter (\<lambda>r. users d (user_id r) \<noteq> None \<and> status r = ''pending'') (downloads d))"
    by (simp add: get_all_pending_downloads_def)
  have "sorted (map (pending_key now d) (get_all_pending_downloads now d))"
    by (simp add: get_all_pending_downloads_def)
  then have "sorted_wrt (\<lambda>x y. pending_key now d x \<le> pending_key now d y)
      (get_all_pending_downloads now d)"
    by (simp add: sorted_wrt_map)
  then have ord: "sorted_wrt (\<lambda>x y. fst (pending_key now d x) < fst (pending_key now d y)
                    \<or> (fst (pending_key now d x) = fst (pending_key now d y)
                        \<and> created_at x \<le> created_at y))
        (get_all_pending_downloads now d)"
    by (rule sorted_wrt_mono_rel [rotated]) (auto simp: pending_key_def less_eq_prod_def)
  have tier: "fst (pending_key now d r) =
       (if \<exists>u p. users d (user_id r) = Some u \<and> priority_until u = Some p
                 \<and> (p = ''INFINITE'' \<or> sql_datetime now < p)
        then 0 else 1)"
    by (auto simp: pending_key_def priority_case_def split: option.splits)
  have scen: "map user_id (get_all_pending_downloads noon (db (run cfg1 run_three_users init)))
       = [2, 3, 1]"
    by (simp add: run_three_users_def init_def init_db_def model_defs)
  from perm ord tier scen show ?thesis by simp
qed

text \<open>
  C5. A user whose \<open>priority_until\<close> lies in the past is to be ordered like a user
  without priority. The priority of user 1 ran out at midnight; at noon of the same day
  \<open>has_priority\<close> denies it, yet \<open>get_all_pending_downloads\<close> puts the later job of user 1
  before the earlier job of user 2, and after \<open>priority_until\<close> is set to NULL the order
  is the other one: the query compares the \<open>isoformat\<close> text with the text of
  \<open>datetime('now')\<close>, and on the same day \<open>T\<close> is greater than the blank.
\<close>

theorem expired_priority_still_ranks:
  "earlier midnight noon
   \<and> map_option priority_until (users (db (run cfg1 run_expired init)) 1)
       = Some (Some (isoformat midnight))
   \<and> \<not> has_priority noon 1 (db (run cfg1 run_expired init))
   \<and> map user_id (get_all_pending_downloads noon (db (run cfg1 run_expired init))) = [1, 2]
   \<and> map user_id (get_all_pending_downloads noon
         (admin_remove_priority 1 (db (run cfg1 run_expired init)))) = [2, 1]"
  by (simp add: run_expired_def init_def init_db_def model_defs earlier_def instant_key_def
      has_priority_def fromisoformat_def)

lemma cache_hit_keeps_store:
  "cache_hit url fmt s = Some h \<Longrightarrow>
     handle_download_callback now uid url fmt msg s = (FromCache h, s)"
  by (simp add: handle_download_callback_def)

text \<open>
  C6. After a job for \<open>L\<close> at \<open>720p\<close> has completed with its file at \<open>P\<close>, a second
  submission for the same link and quality made while \<open>P\<close> is on disk is to be served
  from the cache, without a new row. Right after completion it is. Once the observer has
  delivered the job by link the file is still on disk, but the row is in \<open>sending\<close> with
  \<open>file_path\<close> cleared, the lookup finds nothing, and the submission adds row 2.
\<close>

theorem delivered_job_misses_cache:
  "map_option download_id (cache_hit ''L'' ''720p'' (run cfg1 run_large init)) = Some 1
   \<and> disk (run cfg1 run_large_delivered init) ''/storage/7/a.mp4'' = Some 60000000
   \<and> map_option (\<lambda>r. (status r, file_path r))
        (get_download 1 (db (run cfg1 run_large_delivered init))) = Some (''sending'', None)
   \<and> fst (handle_download_callback noon 7 ''L'' ''720p'' (0, 0)
            (run cfg1 run_large_delivered init)) = Queued 2
   \<and> length (downloads (db (snd (handle_download_callback noon 7 ''L'' ''720p'' (0, 0)
            (run cfg1 run_large_delivered init))))) = 2"
  by (simp add: large_state large_delivered_state model_defs)




end
